theory Spec2Isabelle
  imports Complex_Main "HOL-Library.Product_Lexorder"
begin

section \<open>JavaScript values used by the player\<close>

text \<open>
  A JavaScript number is a double. The player only compares, clamps and adds volumes, so a
  number is modelled as \<open>NaN\<close>, one of the two infinities, or a finite real. Finite sums are
  taken exactly: the rounding of a double sum is not modelled (it cannot move a value across
  the bounds 0 and 1, which are doubles themselves). Signed zero is not distinguished.
\<close>

datatype jsnum = NaN | NegInf | Fin real | PosInf

text \<open>The order of non-NaN numbers (\<open>a <= b\<close> in JavaScript is false when either is NaN).\<close>

fun js_le :: "jsnum \<Rightarrow> jsnum \<Rightarrow> bool" where
  "js_le NaN _ = False"
| "js_le _ NaN = False"
| "js_le NegInf _ = True"
| "js_le (Fin a) NegInf = False"
| "js_le (Fin a) (Fin b) = (a \<le> b)"
| "js_le (Fin a) PosInf = True"
| "js_le PosInf PosInf = True"
| "js_le PosInf _ = False"

text \<open>\<open>Math.min\<close> and \<open>Math.max\<close> of two arguments: NaN if either argument is NaN.\<close>

definition js_min :: "jsnum \<Rightarrow> jsnum \<Rightarrow> jsnum" where
  "js_min a b = (if a = NaN \<or> b = NaN then NaN else if js_le a b then a else b)"

definition js_max :: "jsnum \<Rightarrow> jsnum \<Rightarrow> jsnum" where
  "js_max a b = (if a = NaN \<or> b = NaN then NaN else if js_le a b then b else a)"

text \<open>The \<open>+\<close> of two numbers.\<close>

fun js_add :: "jsnum \<Rightarrow> jsnum \<Rightarrow> jsnum" where
  "js_add NaN _ = NaN"
| "js_add _ NaN = NaN"
| "js_add NegInf PosInf = NaN"
| "js_add PosInf NegInf = NaN"
| "js_add NegInf _ = NegInf"
| "js_add _ NegInf = NegInf"
| "js_add PosInf _ = PosInf"
| "js_add _ PosInf = PosInf"
| "js_add (Fin a) (Fin b) = Fin (a + b)"

subsection \<open>Arrays\<close>

text \<open>
  An array element that may be \<open>undefined\<close> is an option, \<open>None\<close> standing for
  \<open>undefined\<close>. \<open>xs[i]\<close> outside the array is \<open>undefined\<close>.
\<close>

definition js_nth :: "'a option list \<Rightarrow> int \<Rightarrow> 'a option" where
  "js_nth xs i = (if 0 \<le> i \<and> i < int (length xs) then xs ! nat i else None)"

text \<open>
  \<open>Array.prototype.splice(start, deleteCount, ...items)\<close> on an integer \<open>start\<close>: a
  negative start counts from the end, a start beyond the end is the end. It returns the
  removed elements and leaves the array with the items in their place.
\<close>

definition splice_start :: "int \<Rightarrow> nat \<Rightarrow> nat" where
  "splice_start start len =
     (if start < 0 then nat (max (int len + start) 0) else min (nat start) len)"

definition js_splice :: "'a list \<Rightarrow> int \<Rightarrow> nat \<Rightarrow> 'a list \<Rightarrow> 'a list \<times> 'a list" where
  "js_splice xs start deleteCount items =
     (let s = splice_start start (length xs);
          d = min deleteCount (length xs - s)
      in (take d (drop s xs), take s xs @ items @ drop (s + d) xs))"

text \<open>The list with the element at position \<open>i\<close> taken out.\<close>

definition remove_nth :: "nat \<Rightarrow> 'a list \<Rightarrow> 'a list" where
  "remove_nth i xs = take i xs @ drop (Suc i) xs"

section \<open>The music player (src/server.js, class MusicPlayer)\<close>

datatype repeat_mode = RepeatNone | RepeatOne | RepeatAll

text \<open>
  The fields of \<open>MusicPlayer\<close> that the queue, the transport policy and the volume read
  or write. The audio element and the user interface are outside the model.
\<close>

record 't player =
  queue :: "'t option list"
  queueIndex :: int
  shuffle :: bool
  repeatMode :: repeat_mode
  volume :: jsnum

text \<open>The state the constructor builds.\<close>

definition new_player :: "'t player" where
  "new_player = \<lparr> queue = [], queueIndex = - 1, shuffle = False, repeatMode = RepeatNone,
     volume = Fin 1 \<rparr>"

subsection \<open>Volume\<close>

text \<open>
  \<open>setVolume\<close> stores \<open>Math.max(0, Math.min(1, volume))\<close> and copies it to the audio
  element (not modelled); \<open>adjustVolume\<close> calls \<open>setVolume(this.volume + delta)\<close>.
\<close>

definition setVolume :: "jsnum \<Rightarrow> 't player \<Rightarrow> 't player" where
  "setVolume v s = s\<lparr>volume := js_max (Fin 0) (js_min (Fin 1) v)\<rparr>"

definition adjustVolume :: "jsnum \<Rightarrow> 't player \<Rightarrow> 't player" where
  "adjustVolume delta s = setVolume (js_add (volume s) delta) s"

datatype volume_call = SetVolume jsnum | AdjustVolume jsnum

fun volume_arg :: "volume_call \<Rightarrow> jsnum" where
  "volume_arg (SetVolume v) = v"
| "volume_arg (AdjustVolume d) = d"

fun volume_step :: "'t player \<Rightarrow> volume_call \<Rightarrow> 't player" where
  "volume_step s (SetVolume v) = setVolume v s"
| "volume_step s (AdjustVolume d) = adjustVolume d s"

fun volume_run :: "'t player \<Rightarrow> volume_call list \<Rightarrow> 't player" where
  "volume_run s [] = s"
| "volume_run s (c # cs) = volume_run (volume_step s c) cs"

text \<open>A number in the interval from 0 to 1.\<close>

fun in_unit :: "jsnum \<Rightarrow> bool" where
  "in_unit (Fin r) = (0 \<le> r \<and> r \<le> 1)"
| "in_unit _ = False"

subsection \<open>Queue mutation\<close>

text \<open>\<open>addToQueue\<close> pushes the track; the cursor is not touched.\<close>

definition addToQueue :: "'t option \<Rightarrow> 't player \<Rightarrow> 't player" where
  "addToQueue track s = s\<lparr>queue := queue s @ [track]\<rparr>"

text \<open>\<open>removeFromQueue\<close>: \<open>splice(index, 1)\<close>, then the cursor moves left when
  \<open>index < queueIndex\<close>.\<close>

definition removeFromQueue :: "int \<Rightarrow> 't player \<Rightarrow> 't player" where
  "removeFromQueue index s =
     (let q = snd (js_splice (queue s) index 1 [])
      in s\<lparr>queue := q,
            queueIndex := (if index < queueIndex s then queueIndex s - 1 else queueIndex s)\<rparr>)"

text \<open>
  \<open>reorderQueue\<close>: \<open>const [removed] = this.queue.splice(fromIndex, 1)\<close> (\<open>undefined\<close> when
  nothing was removed), \<open>this.queue.splice(toIndex, 0, removed)\<close>, then the three-way cursor
  update.
\<close>

definition reorderQueue :: "int \<Rightarrow> int \<Rightarrow> 't player \<Rightarrow> 't player" where
  "reorderQueue fromIndex toIndex s =
     (let (rem, q1) = js_splice (queue s) fromIndex 1 [];
          removed = (case rem of [] \<Rightarrow> None | x # _ \<Rightarrow> x);
          q2 = snd (js_splice q1 toIndex 0 [removed]);
          i = queueIndex s
      in s\<lparr>queue := q2,
            queueIndex :=
              (if fromIndex = i then toIndex
               else if fromIndex < i \<and> toIndex \<ge> i then i - 1
               else if fromIndex > i \<and> toIndex \<le> i then i + 1
               else i)\<rparr>)"

text \<open>The three mutations as calls, a sequence of calls run from a state, and the
  sequences in which every index is a valid index of the queue it is applied to.\<close>

datatype 't queue_call = Add "'t option" | Remove int | Reorder int int

fun queue_step :: "'t player \<Rightarrow> 't queue_call \<Rightarrow> 't player" where
  "queue_step s (Add t) = addToQueue t s"
| "queue_step s (Remove i) = removeFromQueue i s"
| "queue_step s (Reorder i j) = reorderQueue i j s"

definition valid_index :: "'t player \<Rightarrow> int \<Rightarrow> bool" where
  "valid_index s i = (0 \<le> i \<and> i < int (length (queue s)))"

fun call_in_range :: "'t player \<Rightarrow> 't queue_call \<Rightarrow> bool" where
  "call_in_range s (Add t) = True"
| "call_in_range s (Remove i) = valid_index s i"
| "call_in_range s (Reorder i j) = (valid_index s i \<and> valid_index s j)"

fun calls_in_range :: "'t player \<Rightarrow> 't queue_call list \<Rightarrow> bool" where
  "calls_in_range s [] = True"
| "calls_in_range s (c # cs) = (call_in_range s c \<and> calls_in_range (queue_step s c) cs)"

fun queue_run :: "'t player \<Rightarrow> 't queue_call list \<Rightarrow> 't player" where
  "queue_run s [] = s"
| "queue_run s (c # cs) = queue_run (queue_step s c) cs"

text \<open>The invariant as the specification words it: the cursor is \<open>-1\<close> exactly when the queue is
  empty, and a valid index otherwise.\<close>

definition queue_invariant :: "'t player \<Rightarrow> bool" where
  "queue_invariant s =
     ((queueIndex s = - 1) = (queue s = []) \<and>
      (if queue s = [] then True else valid_index s (queueIndex s)))"

subsection \<open>What plays next\<close>










section \<open>The response cache (src/api-manager.js, APIManager.fetchWithCache)\<close>

text \<open>
  What \<open>fetch\<close> followed by \<open>response.json()\<close> can do: the request is rejected, or a
  response arrives with its \<open>ok\<close> flag, its status and its body, \<open>None\<close> when the body is
  not JSON.
\<close>

datatype 'd fetch_outcome = FetchRejected | Response bool nat "'d option"

datatype fetch_error = NetworkFailure | HttpStatus nat | InvalidJson

record 'd cache_entry =
  data :: 'd
  timestamp :: int

type_synonym 'd cache = "string \<rightharpoonup> 'd cache_entry"

text \<open>\<open>this.cacheTimeout = 5 * 60 * 1000\<close>, in milliseconds.\<close>

definition cacheTimeout :: int where
  "cacheTimeout = 5 * 60 * 1000"

text \<open>The key is the URL, an underscore and the JSON text of the options (an argument
  here).\<close>

definition cacheKey :: "string \<Rightarrow> string \<Rightarrow> string" where
  "cacheKey url options = url @ ''_'' @ options"

text \<open>The cache check: the stored data when the key has an entry younger than the
  timeout at time \<open>now\<close>.\<close>

definition cache_check :: "'d cache \<Rightarrow> string \<Rightarrow> int \<Rightarrow> 'd option" where
  "cache_check c k now =
     (case c k of
        None \<Rightarrow> None
      | Some cached \<Rightarrow> if now - timestamp cached < cacheTimeout then Some (data cached) else None)"

text \<open>
  \<open>fetchWithCache\<close>. \<open>net\<close> is what the network answers to a request, \<open>now\<close> the value of
  \<open>Date.now()\<close> at the cache check and \<open>later\<close> its value when the response is stored. The
  result is what the promise settles to, the cache afterwards, and the requests sent
  (the URLs given to \<open>fetch\<close>).
\<close>

definition fetchWithCache ::
  "(string \<Rightarrow> string \<Rightarrow> 'd fetch_outcome) \<Rightarrow> int \<Rightarrow> int \<Rightarrow> string \<Rightarrow> string \<Rightarrow> 'd cache \<Rightarrow>
     (fetch_error + 'd) \<times> 'd cache \<times> string list" where
  "fetchWithCache net now later url options c =
     (case cache_check c (cacheKey url options) now of
        Some d \<Rightarrow> (Inr d, c, [])
      | None \<Rightarrow>
          (case net url options of
             FetchRejected \<Rightarrow> (Inl NetworkFailure, c, [url])
           | Response ok status body \<Rightarrow>
               if \<not> ok then (Inl (HttpStatus status), c, [url])
               else (case body of
                       None \<Rightarrow> (Inl InvalidJson, c, [url])
                     | Some d \<Rightarrow>
                         (Inr d, c(cacheKey url options \<mapsto> \<lparr>data = d, timestamp = later\<rparr>),
                          [url]))))"

text \<open>A request whose loader fails: rejected, not ok, or a body that is not JSON.\<close>

fun fetch_fails :: "'d fetch_outcome \<Rightarrow> bool" where
  "fetch_fails FetchRejected = True"
| "fetch_fails (Response ok status body) = (\<not> ok \<or> body = None)"

section \<open>The aggregator (src/api-manager.js, APIManager.search and mergeResults)\<close>

text \<open>
  \<open>searchYouTube\<close>, \<open>searchSoundCloud\<close> and \<open>searchAudius\<close> have one shape: await
  \<open>fetchWithCache\<close>, map the items of the response to tracks, and return \<open>[]\<close> from the
  \<open>catch\<close> when either step throws. They differ in the URL and in the mapping, which is an
  argument here (\<open>None\<close> when the mapping throws, for instance on a response with no item
  list). \<open>response\<close> is what the provider's \<open>fetchWithCache\<close> call settled to. The value
  is what the returned promise settles to: always fulfilled.
\<close>

definition search_source :: "('r \<Rightarrow> 't list option) \<Rightarrow> fetch_error + 'r \<Rightarrow> fetch_error + 't list" where
  "search_source tracks_of response =
     (case response of
        Inl error \<Rightarrow> Inr []
      | Inr r \<Rightarrow> (case tracks_of r of None \<Rightarrow> Inr [] | Some ts \<Rightarrow> Inr ts))"

text \<open>\<open>promise.then(data => results.x = data)\<close> under \<open>Promise.allSettled\<close>: the slot keeps
  its initial \<open>[]\<close> when the promise is rejected.\<close>

definition settled_into :: "'t list \<Rightarrow> fetch_error + 't list \<Rightarrow> 't list" where
  "settled_into initial p = (case p of Inl error \<Rightarrow> initial | Inr d \<Rightarrow> d)"

text \<open>\<open>if (xs[i]) merged.push(xs[i])\<close>: a track is an object, hence truthy, and \<open>xs[i]\<close>
  is \<open>undefined\<close> beyond the end.\<close>

definition push_present :: "'t list \<Rightarrow> nat \<Rightarrow> 't list \<Rightarrow> 't list" where
  "push_present xs i merged = (if i < length xs then merged @ [xs ! i] else merged)"

function merge_loop :: "'t list \<Rightarrow> 't list \<Rightarrow> 't list \<Rightarrow> nat \<Rightarrow> nat \<Rightarrow> 't list \<Rightarrow> 't list" where
  "merge_loop youtube soundcloud audius maxLength i merged =
     (if i < maxLength then
        merge_loop youtube soundcloud audius maxLength (i + 1)
          (push_present audius i (push_present soundcloud i (push_present youtube i merged)))
      else merged)"
  by pat_completeness auto
termination
  by (relation "measure (\<lambda>(y, s, a, n, i, m). n - i)") auto

declare merge_loop.simps [simp del]

definition mergeResults :: "'t list \<Rightarrow> 't list \<Rightarrow> 't list \<Rightarrow> 't list" where
  "mergeResults youtube soundcloud audius =
     merge_loop youtube soundcloud audius
       (max (length youtube) (max (length soundcloud) (length audius))) 0 []"

text \<open>
  \<open>search(query, source)\<close>. Each provider is queried when \<open>source\<close> is \<open>all\<close> or its own
  name; the three responses and mappings are arguments. The value is what the promise
  returned by \<open>search\<close> settles to.
\<close>

definition search ::
  "string \<Rightarrow> ('r \<Rightarrow> 't list option) \<Rightarrow> ('r \<Rightarrow> 't list option) \<Rightarrow> ('r \<Rightarrow> 't list option) \<Rightarrow>
     fetch_error + 'r \<Rightarrow> fetch_error + 'r \<Rightarrow> fetch_error + 'r \<Rightarrow> fetch_error + 't list" where
  "search source of_youtube of_soundcloud of_audius ry rs ra =
     (let youtube = (if source = ''all'' \<or> source = ''youtube''
                     then settled_into [] (search_source of_youtube ry) else []);
          soundcloud = (if source = ''all'' \<or> source = ''soundcloud''
                        then settled_into [] (search_source of_soundcloud rs) else []);
          audius = (if source = ''all'' \<or> source = ''audius''
                    then settled_into [] (search_source of_audius ra) else [])
      in Inr (mergeResults youtube soundcloud audius))"

text \<open>Round-robin interleaving as the specification words it: at step \<open>i = 0, 1, 2, ...\<close>
  the \<open>i\<close>-th element of each list that has one is appended, in the order of the lists,
  until all lists are exhausted.\<close>

definition round_robin :: "'t list list \<Rightarrow> 't list" where
  "round_robin xss =
     concat (map (\<lambda>i. concat (map (\<lambda>xs. if i < length xs then [xs ! i] else []) xss))
               [0..<foldr (\<lambda>xs. max (length xs)) xss 0])"

text \<open>What one round of the loop in \<open>mergeResults\<close> pushes.\<close>

definition round_of :: "'t list \<Rightarrow> 't list \<Rightarrow> 't list \<Rightarrow> nat \<Rightarrow> 't list" where
  "round_of y s a i = push_present a i (push_present s i (push_present y i []))"

section \<open>The persistent store (src/server/database.js, class DatabaseManager)\<close>

text \<open>
  The store is IndexedDB. An object store is modelled by what its requests do to the
  records it holds, and a transaction by the two facts the code depends on: whether it is
  still active when a request is placed on it, and what becomes of its writes and of the
  promise built on its events when something fails.
\<close>

subsection \<open>Playlists\<close>

text \<open>A stored value: a number, a string, an array or an object; a record is an object,
  a map from property names to values.\<close>

datatype jsval = Num int | Str string | Arr "jsval list" | Obj "(string \<times> jsval) list"

type_synonym jsobject = "string \<rightharpoonup> jsval"

text \<open>The values IndexedDB accepts as keys: numbers, strings and arrays of keys.\<close>

fun valid_key :: "jsval \<Rightarrow> bool" where
  "valid_key (Num n) = True"
| "valid_key (Str s) = True"
| "valid_key (Arr xs) = (\<forall>x\<in>set xs. valid_key x)"
| "valid_key (Obj fs) = False"

datatype db_error = DataError | TransactionInactiveError

text \<open>
  The \<open>playlists\<close> store is created with \<open>keyPath: 'id'\<close> and \<open>autoIncrement: true\<close>: the key
  of a record is its \<open>id\<close> property, and a record without one gets the next value of the key
  generator, which is also written into its \<open>id\<close>.
\<close>

record object_store =
  records :: "jsval \<rightharpoonup> jsobject"
  keyGenerator :: int

definition new_store :: object_store where
  "new_store = \<lparr>records = Map.empty, keyGenerator = 1\<rparr>"

text \<open>\<open>store.put(obj)\<close>: the key of the record written, and the store afterwards.\<close>

definition put :: "jsobject \<Rightarrow> object_store \<Rightarrow> db_error + jsval \<times> object_store" where
  "put obj st =
     (case obj ''id'' of
        None \<Rightarrow>
          (let k = Num (keyGenerator st)
           in Inr (k, st\<lparr>records := (records st)(k \<mapsto> obj(''id'' \<mapsto> k)),
                         keyGenerator := keyGenerator st + 1\<rparr>))
      | Some k \<Rightarrow>
          if valid_key k then
            Inr (k, st\<lparr>records := (records st)(k \<mapsto> obj),
                        keyGenerator :=
                          (case k of Num n \<Rightarrow> max (keyGenerator st) (n + 1)
                           | _ \<Rightarrow> keyGenerator st)\<rparr>)
          else Inl DataError)"

text \<open>\<open>getPlaylist\<close> resolves with \<open>store.get(id)\<close>: the record, or \<open>undefined\<close> (\<open>None\<close>)
  when the store has none under that key.\<close>

definition getPlaylist :: "jsval \<Rightarrow> object_store \<Rightarrow> db_error + jsobject option" where
  "getPlaylist ident st = (if valid_key ident then Inr (records st ident) else Inl DataError)"

text \<open>
  A transaction is active while the task that created it runs and while the callbacks of
  its own requests run. The continuation of an \<open>await\<close> on a promise that a request of
  another transaction settles runs in neither: there the transaction is inactive (and,
  having no request of its own, has already committed as an empty transaction). A request
  placed on an inactive transaction throws \<open>TransactionInactiveError\<close>.
\<close>

datatype txn_status = Active | Inactive

definition after_await :: "txn_status \<Rightarrow> txn_status" where
  "after_await tx = Inactive"

definition store_put ::
  "txn_status \<Rightarrow> jsobject \<Rightarrow> object_store \<Rightarrow> db_error + jsval \<times> object_store" where
  "store_put tx obj st =
     (case tx of Inactive \<Rightarrow> Inl TransactionInactiveError | Active \<Rightarrow> put obj st)"

text \<open>
  \<open>createPlaylist\<close> opens its transaction and places the request in the same task.
  \<open>store.add\<close> of a record without \<open>id\<close> writes it under a generated key, as \<open>put\<close>
  does. The two readings of \<open>Date.now()\<close> are \<open>now\<close> and \<open>now'\<close>. The result is what the
  promise settles to, and the store afterwards.
\<close>

definition createPlaylist ::
  "string \<Rightarrow> string \<Rightarrow> int \<Rightarrow> int \<Rightarrow> object_store \<Rightarrow> (db_error + jsval) \<times> object_store" where
  "createPlaylist name description now now' st =
     (let tx = Active;
          playlist = [''name'' \<mapsto> Str name, ''description'' \<mapsto> Str description,
                      ''tracks'' \<mapsto> Arr [], ''created'' \<mapsto> Num now, ''modified'' \<mapsto> Num now']
      in (case store_put tx playlist st of
            Inl e \<Rightarrow> (Inl e, st)
          | Inr (k, st') \<Rightarrow> (Inr k, st')))"

text \<open>
  \<open>updatePlaylist\<close> opens the read-write transaction first, then awaits \<open>getPlaylist\<close>
  (which reads through a transaction of its own), builds
  \<open>{...playlist, ...updates, modified: Date.now()}\<close> (spreading \<open>undefined\<close> adds no
  property) and only then calls \<open>store.put\<close> on the transaction it opened before the
  \<open>await\<close>. The exception \<open>put\<close> throws inside the promise executor rejects the promise.
\<close>

definition updatePlaylist ::
  "jsval \<Rightarrow> jsobject \<Rightarrow> int \<Rightarrow> object_store \<Rightarrow> (db_error + jsval) \<times> object_store" where
  "updatePlaylist ident updates now st =
     (let tx = Active
      in (case getPlaylist ident st of
            Inl e \<Rightarrow> (Inl e, st)
          | Inr playlist \<Rightarrow>
              (let tx' = after_await tx;
                   updated = ((case playlist of None \<Rightarrow> Map.empty | Some p \<Rightarrow> p) ++ updates)
                               (''modified'' \<mapsto> Num now)
               in (case store_put tx' updated st of
                     Inl e \<Rightarrow> (Inl e, st)
                   | Inr (k, st') \<Rightarrow> (Inr k, st')))))"

text \<open>What the claim asks of an update of a stored playlist: the record under the key
  becomes the old record with the updates written over it and \<open>modified\<close> set.\<close>

definition merged_record :: "jsobject \<Rightarrow> jsobject \<Rightarrow> int \<Rightarrow> jsobject" where
  "merged_record p updates now = (p ++ updates)(''modified'' \<mapsto> Num now)"

subsection \<open>Search history\<close>

record search_entry =
  entry_id :: int
  query :: string
  entry_timestamp :: int

text \<open>The \<open>searchHistory\<close> store (\<open>keyPath: 'id'\<close>, \<open>autoIncrement: true\<close>): its records in
  the order they were added, and the key generator.\<close>

record search_store =
  entries :: "search_entry list"
  nextId :: int

definition new_search_store :: search_store where
  "new_search_store = \<lparr>entries = [], nextId = 1\<rparr>"

text \<open>\<open>addToSearchHistory\<close> adds \<open>{query, timestamp: Date.now()}\<close> and resolves with the
  generated key.\<close>

definition addToSearchHistory :: "string \<Rightarrow> int \<Rightarrow> search_store \<Rightarrow> int \<times> search_store" where
  "addToSearchHistory q now st =
     (nextId st,
      st\<lparr>entries := entries st @ [\<lparr>entry_id = nextId st, query = q, entry_timestamp = now\<rparr>],
         nextId := nextId st + 1\<rparr>)"

text \<open>\<open>store.index('timestamp').getAll()\<close>: the records in ascending order of the index
  key, records with equal timestamps in ascending order of their primary key.\<close>

definition recency :: "search_entry \<Rightarrow> int \<times> int" where
  "recency e = (entry_timestamp e, entry_id e)"

definition timestamp_index :: "search_store \<Rightarrow> search_entry list" where
  "timestamp_index st = sort_key recency (entries st)"

text \<open>The \<open>forEach\<close> over the reversed records, with the set \<open>seen\<close> and the array
  \<open>uniqueSearches\<close>.\<close>

fun unique_loop :: "search_entry list \<Rightarrow> string set \<Rightarrow> search_entry list \<Rightarrow> search_entry list" where
  "unique_loop [] seen uniqueSearches = uniqueSearches"
| "unique_loop (entry # rest) seen uniqueSearches =
     (if query entry \<notin> seen
      then unique_loop rest (insert (query entry) seen) (uniqueSearches @ [entry])
      else unique_loop rest seen uniqueSearches)"

text \<open>\<open>xs.slice(0, end)\<close>: a negative \<open>end\<close> counts from the end of the array.\<close>

definition js_slice_to :: "'a list \<Rightarrow> int \<Rightarrow> 'a list" where
  "js_slice_to xs e =
     take (if e < 0 then nat (max (int (length xs) + e) 0) else nat e) xs"

text \<open>\<open>getSearchHistory(limit = 10)\<close>; \<open>None\<close> is a call without the argument.\<close>

definition getSearchHistory :: "int option \<Rightarrow> search_store \<Rightarrow> search_entry list" where
  "getSearchHistory limit st =
     js_slice_to (unique_loop (rev (timestamp_index st)) {} [])
       (case limit of None \<Rightarrow> 10 | Some l \<Rightarrow> l)"

text \<open>De-duplication as the specification words it, on a list that is most-recent-first:
  the first entry is kept and the later entries with its query are dropped.\<close>

fun latest_per_query :: "search_entry list \<Rightarrow> search_entry list" where
  "latest_per_query [] = []"
| "latest_per_query (e # es) = e # latest_per_query (filter (\<lambda>x. query x \<noteq> query e) es)"

subsection \<open>Downloads and offline tracks\<close>

text \<open>A track, with the two properties the store reads; its other properties are the
  extension of the record.\<close>

record track =
  track_id :: string
  source :: string

text \<open>\<open>{...track, id: trackId, blob: blob, timestamp: Date.now()}\<close> and
  \<open>{id: trackId, track: track, size: blob.size, timestamp: Date.now()}\<close>. A blob is its
  bytes.\<close>

record 'm offline_track =
  ot_track :: "'m track_scheme"
  ot_id :: string
  ot_blob :: string
  ot_timestamp :: int

record 'm download =
  dl_id :: string
  dl_track :: "'m track_scheme"
  dl_size :: nat
  dl_timestamp :: int

record 'm offline_db =
  offlineTracks :: "string \<rightharpoonup> 'm offline_track"
  downloads :: "string \<rightharpoonup> 'm download"

datatype store_name = OfflineTracksStore | DownloadsStore

datatype 'm request =
    PutOfflineTrack "'m offline_track"
  | PutDownload "'m download"
  | DeleteOfflineTrack string
  | DeleteDownload string

fun request_store :: "'m request \<Rightarrow> store_name" where
  "request_store (PutOfflineTrack r) = OfflineTracksStore"
| "request_store (PutDownload r) = DownloadsStore"
| "request_store (DeleteOfflineTrack k) = OfflineTracksStore"
| "request_store (DeleteDownload k) = DownloadsStore"

text \<open>Both stores have \<open>keyPath: 'id'\<close>.\<close>

fun apply_request :: "'m request \<Rightarrow> 'm offline_db \<Rightarrow> 'm offline_db" where
  "apply_request (PutOfflineTrack r) db = db\<lparr>offlineTracks := (offlineTracks db)(ot_id r \<mapsto> r)\<rparr>"
| "apply_request (PutDownload r) db = db\<lparr>downloads := (downloads db)(dl_id r \<mapsto> r)\<rparr>"
| "apply_request (DeleteOfflineTrack k) db = db\<lparr>offlineTracks := (offlineTracks db)(k := None)\<rparr>"
| "apply_request (DeleteDownload k) db = db\<lparr>downloads := (downloads db)(k := None)\<rparr>"

text \<open>
  What can go wrong in a read-write transaction over the two stores:
  \<^item> \<open>CallThrows\<close>: the \<open>put\<close> call on the given store throws (a value the store cannot
    clone). Nothing is placed by that call, and nothing aborts the transaction. \<open>delete\<close>
    is called with a string, which is a valid key, and does not throw for its argument.
  \<^item> \<open>RequestFails\<close>: a request placed on the given store fails when it is carried out.
    Its \<open>error\<close> event bubbles to the transaction, and as no handler cancels it the
    transaction aborts: every write of the transaction is undone.
  \<^item> \<open>CommitFails\<close>: every request succeeds and writing the changes fails (quota, disk).
    The transaction aborts and its writes are undone; only its \<open>abort\<close> event fires, no
    \<open>error\<close> event.
\<close>

datatype fault = NoFault | CallThrows store_name | RequestFails store_name | CommitFails

text \<open>A promise: resolved with a value, rejected, or never settled.\<close>

datatype 'a promise = Resolved 'a | Rejected | Pending

text \<open>
  The body of the promise executor places the requests in order. \<open>place_requests\<close> gives
  the requests placed, and whether a call threw: then the executor stops there, the promise
  is rejected with the exception, and the two handlers of the transaction, assigned after
  the calls, are never set.
\<close>

fun is_put :: "'m request \<Rightarrow> bool" where
  "is_put (PutOfflineTrack r) = True"
| "is_put (PutDownload r) = True"
| "is_put (DeleteOfflineTrack k) = False"
| "is_put (DeleteDownload k) = False"

fun place_requests :: "fault \<Rightarrow> 'm request list \<Rightarrow> 'm request list \<times> bool" where
  "place_requests f [] = ([], False)"
| "place_requests f (r # rs) =
     (if is_put r \<and> f = CallThrows (request_store r) then ([], True)
      else (case place_requests f rs of (placed, threw) \<Rightarrow> (r # placed, threw)))"

text \<open>The store the placed requests build, in order; \<open>None\<close> when one of them fails.\<close>

fun run_requests :: "fault \<Rightarrow> 'm request list \<Rightarrow> 'm offline_db \<Rightarrow> 'm offline_db option" where
  "run_requests f [] db = Some db"
| "run_requests f (r # rs) db =
     (if f = RequestFails (request_store r) then None
      else run_requests f rs (apply_request r db))"

text \<open>
  The promise of \<open>saveOfflineTrack\<close> and \<open>deleteDownload\<close>, and the database afterwards.
  The code sets \<open>transaction.oncomplete = () => resolve(true)\<close> and
  \<open>transaction.onerror = () => reject(transaction.error)\<close>, and nothing for \<open>abort\<close>:
  \<^item> after a throwing call the promise is rejected and the requests placed before it are
    carried out and committed;
  \<^item> a failing request undoes everything and rejects through \<open>onerror\<close>;
  \<^item> a failing commit undoes everything and no handler is called;
  \<^item> otherwise the writes are committed and \<open>oncomplete\<close> resolves the promise.
\<close>

definition transaction ::
  "fault \<Rightarrow> 'm request list \<Rightarrow> 'm offline_db \<Rightarrow> bool promise \<times> 'm offline_db" where
  "transaction f rs db =
     (case place_requests f rs of
        (placed, threw) \<Rightarrow>
          (case run_requests f placed db of
             None \<Rightarrow> (Rejected, db)
           | Some db' \<Rightarrow>
               if threw then (Rejected, db')
               else if f = CommitFails then (Pending, db)
               else (Resolved True, db')))"

definition trackId_of :: "'m track_scheme \<Rightarrow> string" where
  "trackId_of t = source t @ ''_'' @ track_id t"

text \<open>\<open>saveOfflineTrack\<close>; \<open>now\<close> and \<open>now'\<close> are the two readings of \<open>Date.now()\<close>.\<close>

definition saveOfflineTrack ::
  "fault \<Rightarrow> int \<Rightarrow> int \<Rightarrow> 'm track_scheme \<Rightarrow> string \<Rightarrow> 'm offline_db \<Rightarrow>
     bool promise \<times> 'm offline_db" where
  "saveOfflineTrack f now now' t blob db =
     (let trackId = trackId_of t;
          offlineTrack = \<lparr>ot_track = t, ot_id = trackId, ot_blob = blob, ot_timestamp = now\<rparr>;
          download = \<lparr>dl_id = trackId, dl_track = t, dl_size = length blob, dl_timestamp = now'\<rparr>
      in transaction f [PutOfflineTrack offlineTrack, PutDownload download] db)"

definition deleteDownload ::
  "fault \<Rightarrow> string \<Rightarrow> 'm offline_db \<Rightarrow> bool promise \<times> 'm offline_db" where
  "deleteDownload f trackId db =
     transaction f [DeleteOfflineTrack trackId, DeleteDownload trackId] db"

text \<open>No orphan: a key has an offline blob exactly when it has a download record.\<close>

definition paired :: "'m offline_db \<Rightarrow> bool" where
  "paired db = (dom (offlineTracks db) = dom (downloads db))"

section \<open>Verification: the player\<close>

subsection \<open>Volume\<close>

lemma clamp_code_fin: "js_max (Fin 0) (js_min (Fin 1) (Fin r)) = Fin (max 0 (min 1 r))"
  by (auto simp: js_max_def js_min_def)

lemma clamp_code_in_unit: "v \<noteq> NaN \<Longrightarrow> in_unit (js_max (Fin 0) (js_min (Fin 1) v))"
  by (cases v) (auto simp: js_max_def js_min_def)

lemma js_add_in_unit_not_NaN: "in_unit a \<Longrightarrow> d \<noteq> NaN \<Longrightarrow> js_add a d \<noteq> NaN"
  by (cases a; cases d) auto

lemma volume_step_in_unit:
  "in_unit (volume s) \<Longrightarrow> volume_arg c \<noteq> NaN \<Longrightarrow> in_unit (volume (volume_step s c))"
  by (cases c) (simp_all add: setVolume_def adjustVolume_def clamp_code_in_unit js_add_in_unit_not_NaN)

lemma volume_run_in_unit:
  "in_unit (volume s) \<Longrightarrow> \<forall>c\<in>set cs. volume_arg c \<noteq> NaN \<Longrightarrow> in_unit (volume (volume_run s cs))"
proof (induction cs arbitrary: s)
  case Nil
  then show ?case by simp
next
  case (Cons c cs)
  have "in_unit (volume (volume_step s c))"
    using Cons.prems by (simp add: volume_step_in_unit)
  then show ?case using Cons by simp
qed

text \<open>
  Claim C10, amended. For every number \<open>v\<close> that is not NaN, \<open>setVolume(v)\<close> stores \<open>v\<close>
  clamped into the interval from 0 to 1: \<open>max(0, min(1, v))\<close> for a finite \<open>v\<close>, 1 for
  \<open>Infinity\<close>, 0 for \<open>-Infinity\<close>. \<open>adjustVolume(delta)\<close> is \<open>setVolume\<close> of the current
  volume plus \<open>delta\<close>. From a volume in the interval, any sequence of \<open>setVolume\<close> and
  \<open>adjustVolume\<close> calls whose arguments are not NaN leaves the volume in the interval.
\<close>

theorem volume_clamped:
  "volume (setVolume (Fin r) s) = Fin (max 0 (min 1 r)) \<and>
   volume (setVolume PosInf s) = Fin 1 \<and>
   volume (setVolume NegInf s) = Fin 0 \<and>
   (v \<noteq> NaN \<longrightarrow> in_unit (volume (setVolume v s))) \<and>
   adjustVolume delta s = setVolume (js_add (volume s) delta) s \<and>
   (in_unit (volume s) \<and> (\<forall>c\<in>set cs. volume_arg c \<noteq> NaN) \<longrightarrow>
      in_unit (volume (volume_run s cs)))"
proof -
  have a: "volume (setVolume (Fin r) s) = Fin (max 0 (min 1 r))"
    by (simp add: setVolume_def clamp_code_fin)
  have b: "volume (setVolume PosInf s) = Fin 1" "volume (setVolume NegInf s) = Fin 0"
    by (simp_all add: setVolume_def js_max_def js_min_def)
  have c: "v \<noteq> NaN \<longrightarrow> in_unit (volume (setVolume v s))"
    by (simp add: setVolume_def clamp_code_in_unit)
  have d: "adjustVolume delta s = setVolume (js_add (volume s) delta) s"
    by (simp add: adjustVolume_def)
  show ?thesis using a b c d volume_run_in_unit by blast
qed

text \<open>
  The volume law at the new player (volume 1): \<open>setVolume(3)\<close> stores 1; up by 0.1, set
  to 3, down by 0.1 gives 0.9, and setting \<open>-Infinity\<close> after that stays in the interval.
\<close>

theorem volume_clamped_witness:
  "Fin 3 \<noteq> NaN \<and>
   volume (setVolume (Fin 3) (new_player :: unit player)) = Fin 1 \<and>
   in_unit (volume (new_player :: unit player)) \<and>
   in_unit (volume (volume_run (new_player :: unit player)
      [AdjustVolume (Fin (1/10)), SetVolume (Fin 3), AdjustVolume (Fin (- 1/10)), SetVolume NegInf])) \<and>
   volume (volume_run (new_player :: unit player)
      [AdjustVolume (Fin (1/10)), SetVolume (Fin 3), AdjustVolume (Fin (- 1/10))]) = Fin (9/10)"
proof -
  have i: "in_unit (volume (new_player :: unit player))" by (simp add: new_player_def)
  have n: "\<forall>c\<in>set [AdjustVolume (Fin (1/10)), SetVolume (Fin 3), AdjustVolume (Fin (- 1/10)),
      SetVolume NegInf]. volume_arg c \<noteq> NaN"
    by simp
  note t = volume_clamped [of 3 "new_player :: unit player" "Fin 3" _
        "[AdjustVolume (Fin (1/10)), SetVolume (Fin 3), AdjustVolume (Fin (- 1/10)), SetVolume NegInf]"]
  have a: "volume (setVolume (Fin 3) (new_player :: unit player)) = Fin 1"
    using t by simp
  have b: "in_unit (volume (volume_run (new_player :: unit player)
      [AdjustVolume (Fin (1/10)), SetVolume (Fin 3), AdjustVolume (Fin (- 1/10)), SetVolume NegInf]))"
    using t i n by blast
  have c: "volume (volume_run (new_player :: unit player)
      [AdjustVolume (Fin (1/10)), SetVolume (Fin 3), AdjustVolume (Fin (- 1/10))]) = Fin (9/10)"
    by (simp add: new_player_def setVolume_def adjustVolume_def js_max_def js_min_def)
  show ?thesis using a b c i by simp
qed

text \<open>
  Claim C10 as stated (every numeric input) fails at NaN: \<open>Math.min(1, NaN)\<close> and
  \<open>Math.max(0, NaN)\<close> are NaN, so \<open>setVolume(NaN)\<close> stores NaN, which is not in the
  interval.
\<close>

theorem volume_NaN_counterexample:
  "volume (setVolume NaN (new_player :: unit player)) = NaN \<and>
   \<not> in_unit (volume (volume_run (new_player :: unit player) [SetVolume NaN]))"
  by (simp add: setVolume_def js_max_def js_min_def)

subsection \<open>Queue mutation\<close>

lemma splice_remove_one:
  assumes "0 \<le> i" "i < int (length xs)"
  shows "js_splice xs i (Suc 0) [] = ([xs ! nat i], remove_nth (nat i) xs)"
proof -
  have n: "nat i < length xs" using assms by simp
  have s: "splice_start i (length xs) = nat i"
    using assms by (simp add: splice_start_def)
  have d: "min (Suc 0) (length xs - nat i) = Suc 0" using n by simp
  have t: "take (Suc 0) (drop (nat i) xs) = [xs ! nat i]"
    using n by (simp add: take_Suc_conv_app_nth)
  show ?thesis
    by (simp add: js_splice_def s d t remove_nth_def Let_def)
qed

lemma splice_insert_one:
  assumes "0 \<le> j" "j \<le> int (length xs)"
  shows "js_splice xs j 0 [x] = ([], take (nat j) xs @ [x] @ drop (nat j) xs)"
proof -
  have s: "splice_start j (length xs) = nat j"
    using assms by (simp add: splice_start_def)
  show ?thesis by (simp add: js_splice_def s Let_def)
qed

lemma length_remove_nth: "i < length xs \<Longrightarrow> length (remove_nth i xs) = length xs - 1"
  by (simp add: remove_nth_def)

lemma reorderQueue_queue:
  assumes "valid_index s f" "valid_index s t"
  shows "queue (reorderQueue f t s) =
           take (nat t) (remove_nth (nat f) (queue s)) @ [queue s ! nat f] @
           drop (nat t) (remove_nth (nat f) (queue s))"
proof -
  have f: "0 \<le> f" "f < int (length (queue s))" and t: "0 \<le> t" "t < int (length (queue s))"
    using assms by (simp_all add: valid_index_def)
  have l: "t \<le> int (length (remove_nth (nat f) (queue s)))"
    using f t by (simp add: length_remove_nth)
  show ?thesis
    by (simp add: reorderQueue_def splice_remove_one [OF f] splice_insert_one [OF t(1) l] Let_def)
qed

lemma reorderQueue_index:
  "queueIndex (reorderQueue f t s) =
     (if f = queueIndex s then t
      else if f < queueIndex s \<and> queueIndex s \<le> t then queueIndex s - 1
      else if t \<le> queueIndex s \<and> queueIndex s < f then queueIndex s + 1
      else queueIndex s)"
  by (auto simp: reorderQueue_def Let_def split: prod.splits)

lemma nth_remove_nth:
  "k < length xs - 1 \<Longrightarrow> remove_nth i xs ! k = (if k < i then xs ! k else xs ! Suc k)"
  by (auto simp: remove_nth_def nth_append min_def)

lemma remove_nth_insert:
  "t \<le> length ys \<Longrightarrow> remove_nth t (take t ys @ x # drop t ys) = ys"
  by (simp add: remove_nth_def min_def)

lemma nth_insert:
  "t \<le> length ys \<Longrightarrow> k \<le> length ys \<Longrightarrow> (take t ys @ x # drop t ys) ! k =
     (if k < t then ys ! k else if k = t then x else ys ! (k - 1))"
  by (auto simp: nth_append min_def nth_Cons')

text \<open>Moving one element of a list, and where each position goes.\<close>

lemma nth_move:
  assumes "f < length xs" "t < length xs" "c < length xs"
  shows "(take t (remove_nth f xs) @ xs ! f # drop t (remove_nth f xs)) !
           (if f = c then t else if f < c \<and> c \<le> t then c - 1
            else if t \<le> c \<and> c < f then c + 1 else c) = xs ! c"
proof -
  let ?ys = "remove_nth f xs"
  have ly: "length ?ys = length xs - 1" using assms by (simp add: length_remove_nth)
  have l: "t \<le> length ?ys" using assms ly by simp
  consider (a) "f = c" | (b) "f < c" "c \<le> t" | (c) "t \<le> c" "c < f"
    | (d) "c < f" "c < t" | (e) "f < c" "t < c"
    by linarith
  then show ?thesis
  proof cases
    case a
    then show ?thesis using l by (simp add: nth_insert)
  next
    case b
    then have "c - 1 < t" "c - 1 \<le> length ?ys" "c - 1 < length xs - 1" "\<not> c - 1 < f" "Suc (c - 1) = c"
      using assms ly by auto
    then show ?thesis using b l by (simp add: nth_insert nth_remove_nth)
  next
    case c
    then have "\<not> c + 1 < t" "c + 1 \<noteq> t" "c + 1 \<le> length ?ys" "c < length xs - 1"
      using assms ly by auto
    then show ?thesis using c l by (simp add: nth_insert nth_remove_nth)
  next
    case d
    then have "c \<le> length ?ys" "c < length xs - 1" using assms ly by auto
    then show ?thesis using d l by (simp add: nth_insert nth_remove_nth)
  next
    case e
    then have "c \<le> length ?ys" "c - 1 < length xs - 1" "\<not> c - 1 < f" "Suc (c - 1) = c"
      "\<not> c < t" "c \<noteq> t" "c \<noteq> f" "\<not> c \<le> t" "\<not> c < f"
      using assms ly by auto
    then show ?thesis using e l by (simp add: nth_insert nth_remove_nth)
  qed
qed

lemma reorderQueue_moves:
  assumes "valid_index s f" "valid_index s t"
  shows "queue (reorderQueue f t s) ! nat t = queue s ! nat f"
    and "remove_nth (nat t) (queue (reorderQueue f t s)) = remove_nth (nat f) (queue s)"
    and "length (queue (reorderQueue f t s)) = length (queue s)"
proof -
  let ?ys = "remove_nth (nat f) (queue s)"
  have f: "nat f < length (queue s)" and t: "nat t < length (queue s)"
    using assms by (auto simp: valid_index_def)
  have l: "nat t \<le> length ?ys" using f t by (simp add: length_remove_nth)
  have q: "queue (reorderQueue f t s) = take (nat t) ?ys @ queue s ! nat f # drop (nat t) ?ys"
    using reorderQueue_queue [OF assms] by simp
  show "queue (reorderQueue f t s) ! nat t = queue s ! nat f"
    unfolding q using l by (simp add: nth_insert)
  show "remove_nth (nat t) (queue (reorderQueue f t s)) = ?ys"
    unfolding q using l by (rule remove_nth_insert)
  show "length (queue (reorderQueue f t s)) = length (queue s)"
    unfolding q using f l by (simp add: length_remove_nth)
qed

lemma reorderQueue_follows:
  assumes "valid_index s f" "valid_index s t" "valid_index s (queueIndex s)"
  shows "valid_index (reorderQueue f t s) (queueIndex (reorderQueue f t s)) \<and>
         js_nth (queue (reorderQueue f t s)) (queueIndex (reorderQueue f t s)) =
         js_nth (queue s) (queueIndex s)"
proof -
  let ?q = "queue s" and ?c = "queueIndex s"
  let ?ys = "remove_nth (nat f) ?q"
  define c' where "c' = queueIndex (reorderQueue f t s)"
  have f: "0 \<le> f" "nat f < length ?q" and t: "0 \<le> t" "nat t < length ?q"
    and c: "0 \<le> ?c" "nat ?c < length ?q"
    using assms by (auto simp: valid_index_def)
  have q: "queue (reorderQueue f t s) = take (nat t) ?ys @ ?q ! nat f # drop (nat t) ?ys"
    using reorderQueue_queue [OF assms(1,2)] by simp
  have len: "length (queue (reorderQueue f t s)) = length ?q"
    by (rule reorderQueue_moves(3) [OF assms(1,2)])
  have n: "nat c' = (if nat f = nat ?c then nat t else if nat f < nat ?c \<and> nat ?c \<le> nat t then nat ?c - 1
            else if nat t \<le> nat ?c \<and> nat ?c < nat f then nat ?c + 1 else nat ?c)"
    and r: "0 \<le> c'" "c' < int (length ?q)"
    using f t c by (auto simp: c'_def reorderQueue_index)
  have "queue (reorderQueue f t s) ! nat c' = ?q ! nat ?c"
    unfolding q n by (rule nth_move [OF f(2) t(2) c(2)])
  then show ?thesis
    using r assms(3) by (simp add: js_nth_def valid_index_def len c'_def [symmetric])
qed

text \<open>
  Claim C7. With valid indices, \<open>reorderQueue(fromIndex, toIndex)\<close> puts the element that
  was at \<open>fromIndex\<close> at position \<open>toIndex\<close>, keeps the other elements in their order and
  keeps the length. The cursor becomes \<open>toIndex\<close> when it was \<open>fromIndex\<close>, goes down by one
  when \<open>fromIndex < cursor <= toIndex\<close>, up by one when \<open>toIndex <= cursor < fromIndex\<close>, and
  is unchanged otherwise; a valid cursor still points at the same track afterwards. On
  \<open>[t0, t1, t2, t3]\<close> with cursor 2, \<open>reorder(0, 3)\<close> gives \<open>[t1, t2, t3, t0]\<close> with
  cursor 1.
\<close>

theorem reorder_cursor_law:
  "(valid_index s f \<and> valid_index s t \<longrightarrow>
      queue (reorderQueue f t s) ! nat t = queue s ! nat f \<and>
      remove_nth (nat t) (queue (reorderQueue f t s)) = remove_nth (nat f) (queue s) \<and>
      length (queue (reorderQueue f t s)) = length (queue s)) \<and>
   queueIndex (reorderQueue f t s) =
     (if f = queueIndex s then t
      else if f < queueIndex s \<and> queueIndex s \<le> t then queueIndex s - 1
      else if t \<le> queueIndex s \<and> queueIndex s < f then queueIndex s + 1
      else queueIndex s) \<and>
   (valid_index s f \<and> valid_index s t \<and> valid_index s (queueIndex s) \<longrightarrow>
      valid_index (reorderQueue f t s) (queueIndex (reorderQueue f t s)) \<and>
      js_nth (queue (reorderQueue f t s)) (queueIndex (reorderQueue f t s)) =
        js_nth (queue s) (queueIndex s)) \<and>
   reorderQueue 0 3 (s\<lparr>queue := [t0, t1, t2, t3], queueIndex := 2\<rparr>) =
     s\<lparr>queue := [t1, t2, t3, t0], queueIndex := 1\<rparr>"
proof -
  have ex: "reorderQueue 0 3 (s\<lparr>queue := [t0, t1, t2, t3], queueIndex := 2\<rparr>) =
     s\<lparr>queue := [t1, t2, t3, t0], queueIndex := 1\<rparr>"
    by (simp add: reorderQueue_def js_splice_def splice_start_def)
  show ?thesis
    using reorderQueue_moves [of s f t] reorderQueue_index [of f t s]
      reorderQueue_follows [of s f t] ex
    by blast
qed

text \<open>
  The reorder law on a four-track queue with cursor 1: \<open>reorder(2, 0)\<close> moves the cursor to
  2, where the same track is.
\<close>

theorem reorder_cursor_law_witness:
  "valid_index \<lparr>queue = [Some (10::nat), Some 11, Some 12, Some 13], queueIndex = 1,
       shuffle = False, repeatMode = RepeatNone, volume = Fin 1\<rparr> 2
   \<and> reorderQueue 2 0 \<lparr>queue = [Some (10::nat), Some 11, Some 12, Some 13], queueIndex = 1,
       shuffle = False, repeatMode = RepeatNone, volume = Fin 1\<rparr> =
     \<lparr>queue = [Some 12, Some 10, Some 11, Some 13], queueIndex = 2,
       shuffle = False, repeatMode = RepeatNone, volume = Fin 1\<rparr>
   \<and> js_nth (queue (reorderQueue 2 0 \<lparr>queue = [Some (10::nat), Some 11, Some 12, Some 13],
       queueIndex = 1, shuffle = False, repeatMode = RepeatNone, volume = Fin 1\<rparr>)) 2 = Some 11"
  using reorder_cursor_law [of "\<lparr>queue = [Some (10::nat), Some 11, Some 12, Some 13], queueIndex = 1,
       shuffle = False, repeatMode = RepeatNone, volume = Fin 1\<rparr>" 2 0]
  by (simp add: valid_index_def js_nth_def reorderQueue_def js_splice_def splice_start_def)

lemma queue_step_cursor:
  "queueIndex s = - 1 \<Longrightarrow> call_in_range s c \<Longrightarrow> queueIndex (queue_step s c) = - 1"
  by (cases c) (auto simp: addToQueue_def removeFromQueue_def reorderQueue_index valid_index_def Let_def)

lemma queue_run_cursor:
  "queueIndex s = - 1 \<Longrightarrow> calls_in_range s cs \<Longrightarrow> queueIndex (queue_run s cs) = - 1"
proof (induction cs arbitrary: s)
  case Nil
  then show ?case by simp
next
  case (Cons c cs)
  have "queueIndex (queue_step s c) = - 1"
    using Cons.prems by (simp add: queue_step_cursor)
  then show ?case using Cons by simp
qed

lemma calls_in_range_take: "calls_in_range s cs \<Longrightarrow> calls_in_range s (take n cs)"
proof (induction cs arbitrary: s n)
  case Nil
  then show ?case by simp
next
  case (Cons c cs)
  then show ?case by (cases n) simp_all
qed

text \<open>
  Claim C1, amended. After each call of any sequence of \<open>addToQueue\<close>, \<open>removeFromQueue\<close>
  and \<open>reorderQueue\<close> calls with valid indices from the new player, the cursor is still
  \<open>-1\<close>: none of the three selects a track. So the cursor is \<open>-1\<close> when the queue is empty and
  is always \<open>-1\<close> or a valid index; it is also \<open>-1\<close> when the queue is not empty.
\<close>

theorem queue_cursor_unselected:
  "calls_in_range new_player cs \<Longrightarrow> queueIndex (queue_run new_player (take n cs)) = - 1"
proof (rule queue_run_cursor)
  show "queueIndex (new_player :: 'a player) = - 1"
    by (simp add: new_player_def)
next
  assume "calls_in_range new_player cs"
  then show "calls_in_range new_player (take n cs)"
    by (rule calls_in_range_take)
qed

text \<open>
  Two additions and a reorder from the new player: two tracks queued, cursor \<open>-1\<close>.
\<close>

theorem queue_cursor_unselected_witness:
  "calls_in_range new_player [Add (Some (5::nat)), Add (Some 7), Reorder 1 0] \<and>
   queue (queue_run new_player [Add (Some (5::nat)), Add (Some 7), Reorder 1 0]) = [Some 7, Some 5] \<and>
   queueIndex (queue_run new_player [Add (Some (5::nat)), Add (Some 7), Reorder 1 0]) = - 1"
proof -
  let ?cs = "[Add (Some (5::nat)), Add (Some 7), Reorder 1 0]"
  have r: "calls_in_range new_player ?cs"
    by (simp add: valid_index_def addToQueue_def new_player_def)
  have q: "queue (queue_run new_player ?cs) = [Some 7, Some 5]"
    by (simp add: reorderQueue_def addToQueue_def new_player_def js_splice_def splice_start_def)
  have "queueIndex (queue_run new_player (take 3 ?cs)) = - 1"
    using r by (rule queue_cursor_unselected)
  then show ?thesis using r q by simp
qed

text \<open>
  Claim C1 as stated fails after the first \<open>addToQueue\<close>: the queue has one track and the
  cursor is \<open>-1\<close>.
\<close>

theorem queue_invariant_counterexample:
  "calls_in_range new_player [Add (Some ())] \<and>
   queue (queue_run new_player [Add (Some ())]) = [Some ()] \<and>
   queueIndex (queue_run new_player [Add (Some ())]) = - 1 \<and>
   \<not> queue_invariant (queue_run new_player [Add (Some ())])"
  by (simp add: queue_invariant_def addToQueue_def new_player_def)

subsection \<open>What plays next\<close>

















section \<open>Verification: the response cache\<close>

lemma cacheTimeout_ms: "cacheTimeout = 300000"
  by (simp add: cacheTimeout_def)

lemma cache_hit:
  "c (cacheKey url opts) = Some e \<Longrightarrow> now - timestamp e < cacheTimeout \<Longrightarrow>
     fetchWithCache net now later url opts c = (Inr (data e), c, [])"
  by (simp add: fetchWithCache_def cache_check_def)

lemma cache_miss_fetches:
  "cache_check c (cacheKey url opts) now = None \<Longrightarrow>
     snd (snd (fetchWithCache net now later url opts c)) = [url]"
  by (simp add: fetchWithCache_def split: fetch_outcome.splits option.splits)

lemma cache_hit_no_fetch:
  "cache_check c (cacheKey url opts) now = Some d \<Longrightarrow>
     fetchWithCache net now later url opts c = (Inr d, c, [])"
  by (simp add: fetchWithCache_def)

lemma fetched_iff_miss:
  "snd (snd (fetchWithCache net now later url opts c)) = [url] \<longleftrightarrow>
     cache_check c (cacheKey url opts) now = None"
  by (cases "cache_check c (cacheKey url opts) now") (simp_all add: cache_miss_fetches cache_hit_no_fetch)

lemma cache_stale:
  "c (cacheKey url opts) = Some e \<Longrightarrow> cacheTimeout \<le> now - timestamp e \<Longrightarrow>
     cache_check c (cacheKey url opts) now = None"
  by (simp add: cache_check_def)

lemma fetch_success_stores:
  assumes "fetchWithCache net now later url opts c = (Inr d, c', [url])"
  shows "c' (cacheKey url opts) = Some \<lparr>data = d, timestamp = later\<rparr>"
proof -
  have m: "cache_check c (cacheKey url opts) now = None"
    using assms fetched_iff_miss [of net now later url opts c] by simp
  show ?thesis
    using assms by (auto simp: fetchWithCache_def m split: fetch_outcome.splits option.splits if_splits)
qed

lemma fetch_failure_keeps_cache:
  assumes "cache_check c (cacheKey url opts) now = None" "fetch_fails (net url opts)"
  shows "\<exists>e. fetchWithCache net now later url opts c = (Inl e, c, [url])"
  using assms by (cases "net url opts") (auto simp: fetchWithCache_def split: option.splits)

lemma cache_check_mono:
  "cache_check c k now = None \<Longrightarrow> now \<le> now2 \<Longrightarrow> cache_check c k now2 = None"
  by (auto simp: cache_check_def split: option.splits if_splits)

text \<open>
  Claim C5. The timeout is 300000 ms (5 minutes). A call that finds an entry for its key
  younger than the timeout returns the stored data, leaves the cache as it is and sends no
  request; a call that finds an entry whose age has reached the timeout sends the request
  again. In particular, after a call that fetched and stored \<open>d\<close> at time \<open>later\<close>, a second
  call for the same key at \<open>now2\<close> returns \<open>d\<close> without a request when
  \<open>now2 - later\<close> is below the timeout, whatever the network would answer, and sends the
  request when it is not.
\<close>

theorem cache_ttl:
  "cacheTimeout = 300000 \<and>
   (c (cacheKey url opts) = Some e \<and> now - timestamp e < cacheTimeout \<longrightarrow>
      fetchWithCache net now later url opts c = (Inr (data e), c, [])) \<and>
   (c (cacheKey url opts) = Some e \<and> cacheTimeout \<le> now - timestamp e \<longrightarrow>
      snd (snd (fetchWithCache net now later url opts c)) = [url]) \<and>
   (fetchWithCache net now later url opts c = (Inr d, c', [url]) \<longrightarrow>
      (now2 - later < cacheTimeout \<longrightarrow>
         fetchWithCache net2 now2 later2 url opts c' = (Inr d, c', [])) \<and>
      (cacheTimeout \<le> now2 - later \<longrightarrow>
         snd (snd (fetchWithCache net2 now2 later2 url opts c')) = [url]))"
proof -
  have a: "c (cacheKey url opts) = Some e \<and> now - timestamp e < cacheTimeout \<longrightarrow>
      fetchWithCache net now later url opts c = (Inr (data e), c, [])"
    by (simp add: cache_hit)
  have b: "c (cacheKey url opts) = Some e \<and> cacheTimeout \<le> now - timestamp e \<longrightarrow>
      snd (snd (fetchWithCache net now later url opts c)) = [url]"
    by (simp add: cache_stale cache_miss_fetches)
  have c: "fetchWithCache net now later url opts c = (Inr d, c', [url]) \<longrightarrow>
      (now2 - later < cacheTimeout \<longrightarrow>
         fetchWithCache net2 now2 later2 url opts c' = (Inr d, c', [])) \<and>
      (cacheTimeout \<le> now2 - later \<longrightarrow>
         snd (snd (fetchWithCache net2 now2 later2 url opts c')) = [url])"
  proof
    assume "fetchWithCache net now later url opts c = (Inr d, c', [url])"
    then have s: "c' (cacheKey url opts) = Some \<lparr>data = d, timestamp = later\<rparr>"
      by (rule fetch_success_stores)
    show "(now2 - later < cacheTimeout \<longrightarrow>
         fetchWithCache net2 now2 later2 url opts c' = (Inr d, c', [])) \<and>
      (cacheTimeout \<le> now2 - later \<longrightarrow>
         snd (snd (fetchWithCache net2 now2 later2 url opts c')) = [url])"
      using s cache_hit [of c' url opts _ now2 net2 later2] cache_stale [of c' url opts _ now2]
      by (simp add: cache_miss_fetches)
  qed
  show ?thesis using cacheTimeout_ms a b c by (intro conjI)
qed

text \<open>
  Claim C9. When a call sends its request and the request fails (rejected, status not ok, or
  a body that is not JSON), the promise is rejected and the cache is exactly as before; a
  later call for the same key, at a time not before the first, sends the request again.
\<close>

theorem cache_failure_not_stored:
  "snd (snd (fetchWithCache net now later url opts c)) = [url] \<and> fetch_fails (net url opts) \<and>
   now \<le> now2 \<longrightarrow>
     (\<exists>e. fetchWithCache net now later url opts c = (Inl e, c, [url])) \<and>
     snd (snd (fetchWithCache net2 now2 later2 url opts
        (fst (snd (fetchWithCache net now later url opts c))))) = [url]"
proof (intro impI, elim conjE)
  assume f: "snd (snd (fetchWithCache net now later url opts c)) = [url]"
    and g: "fetch_fails (net url opts)" and t: "now \<le> now2"
  have m: "cache_check c (cacheKey url opts) now = None"
    using f by (simp add: fetched_iff_miss)
  obtain e where e: "fetchWithCache net now later url opts c = (Inl e, c, [url])"
    using m g fetch_failure_keeps_cache [of c url opts now net later] by blast
  have "cache_check c (cacheKey url opts) now2 = None"
    using m t by (rule cache_check_mono)
  then show "(\<exists>e. fetchWithCache net now later url opts c = (Inl e, c, [url])) \<and>
     snd (snd (fetchWithCache net2 now2 later2 url opts
        (fst (snd (fetchWithCache net now later url opts c))))) = [url]"
    using e by (simp add: cache_miss_fetches)
qed

text \<open>
  Two calls one second apart send one request; a call 300 s after the store sends another;
  a call one millisecond earlier is still served from the cache.
\<close>

theorem cache_ttl_witness:
  "fetchWithCache (\<lambda>u p. Response True 200 (Some (7::nat))) 1000 1040 ''/api/x'' ''{}'' Map.empty =
     (Inr 7, [''/api/x_{}'' \<mapsto> \<lparr>data = 7, timestamp = 1040\<rparr>], [''/api/x'']) \<and>
   fetchWithCache (\<lambda>u p. FetchRejected) 2040 2050 ''/api/x'' ''{}''
       [''/api/x_{}'' \<mapsto> \<lparr>data = 7::nat, timestamp = 1040\<rparr>] =
     (Inr 7, [''/api/x_{}'' \<mapsto> \<lparr>data = 7, timestamp = 1040\<rparr>], []) \<and>
   snd (snd (fetchWithCache (\<lambda>u p. FetchRejected) 301040 301050 ''/api/x'' ''{}''
       [''/api/x_{}'' \<mapsto> \<lparr>data = 7::nat, timestamp = 1040\<rparr>])) = [''/api/x''] \<and>
   fetchWithCache (\<lambda>u p. FetchRejected) 301039 301050 ''/api/x'' ''{}''
       [''/api/x_{}'' \<mapsto> \<lparr>data = 7::nat, timestamp = 1040\<rparr>] =
     (Inr 7, [''/api/x_{}'' \<mapsto> \<lparr>data = 7, timestamp = 1040\<rparr>], [])"
proof -
  let ?ok = "\<lambda>u p. Response True 200 (Some (7::nat))" and ?down = "\<lambda>u p. FetchRejected :: nat fetch_outcome"
  let ?e = "\<lparr>data = 7::nat, timestamp = 1040\<rparr>"
  let ?c = "[''/api/x_{}'' \<mapsto> ?e]"
  have k: "cacheKey ''/api/x'' ''{}'' = ''/api/x_{}''"
    by (simp add: cacheKey_def)
  have f: "fetchWithCache ?ok 1000 1040 ''/api/x'' ''{}'' Map.empty = (Inr 7, ?c, [''/api/x''])"
    by (simp add: fetchWithCache_def cache_check_def k)
  have y: "(2040::int) - 1040 < cacheTimeout" and o: "cacheTimeout \<le> (301040::int) - 1040"
    and z: "(301039::int) - timestamp ?e < cacheTimeout"
    by (simp_all add: cacheTimeout_def)
  have a: "fetchWithCache ?down 2040 2050 ''/api/x'' ''{}'' ?c = (Inr 7, ?c, [])"
    using f y cache_ttl [of Map.empty "''/api/x''" "''{}''" _ 1000 ?ok 1040 7 ?c 2040 ?down 2050]
    by blast
  have b: "snd (snd (fetchWithCache ?down 301040 301050 ''/api/x'' ''{}'' ?c)) = [''/api/x'']"
    using f o cache_ttl [of Map.empty "''/api/x''" "''{}''" _ 1000 ?ok 1040 7 ?c 301040 ?down 301050]
    by blast
  have e: "?c (cacheKey ''/api/x'' ''{}'') = Some ?e" by (simp add: k)
  have "fetchWithCache ?down 301039 301050 ''/api/x'' ''{}'' ?c = (Inr (data ?e), ?c, [])"
    using e z cache_ttl [of ?c "''/api/x''" "''{}''" ?e 301039 ?down 301050]
    by blast
  then have c: "fetchWithCache ?down 301039 301050 ''/api/x'' ''{}'' ?c = (Inr 7, ?c, [])"
    by simp
  show ?thesis using f a b c by (intro conjI)
qed

text \<open>
  A 503 answer over a stale entry: the error reaches the caller, the cache is unchanged, and
  the next call asks the network again.
\<close>

theorem cache_failure_not_stored_witness:
  "fetchWithCache (\<lambda>u p. Response False 503 None) 400000 400010 ''/api/x'' ''{}''
       [''/api/x_{}'' \<mapsto> \<lparr>data = 7::nat, timestamp = 1040\<rparr>] =
     (Inl (HttpStatus 503), [''/api/x_{}'' \<mapsto> \<lparr>data = 7, timestamp = 1040\<rparr>], [''/api/x'']) \<and>
   snd (snd (fetchWithCache (\<lambda>u p. Response True 200 (Some 8)) 400020 400030 ''/api/x'' ''{}''
       [''/api/x_{}'' \<mapsto> \<lparr>data = 7::nat, timestamp = 1040\<rparr>])) = [''/api/x'']"
proof -
  let ?bad = "\<lambda>u p. Response False 503 None :: nat fetch_outcome" and ?ok = "\<lambda>u p. Response True 200 (Some (8::nat))"
  let ?c = "[''/api/x_{}'' \<mapsto> \<lparr>data = 7::nat, timestamp = 1040\<rparr>]"
  have k: "cacheKey ''/api/x'' ''{}'' = ''/api/x_{}''"
    by (simp add: cacheKey_def)
  have f: "fetchWithCache ?bad 400000 400010 ''/api/x'' ''{}'' ?c = (Inl (HttpStatus 503), ?c, [''/api/x''])"
    by (simp add: fetchWithCache_def cache_check_def k cacheTimeout_def)
  have h: "snd (snd (fetchWithCache ?bad 400000 400010 ''/api/x'' ''{}'' ?c)) = [''/api/x'']"
    "fst (snd (fetchWithCache ?bad 400000 400010 ''/api/x'' ''{}'' ?c)) = ?c"
    "fetch_fails (?bad ''/api/x'' ''{}'')" "(400000::int) \<le> 400020"
    by (simp_all add: f)
  have "snd (snd (fetchWithCache ?ok 400020 400030 ''/api/x'' ''{}''
       (fst (snd (fetchWithCache ?bad 400000 400010 ''/api/x'' ''{}'' ?c))))) = [''/api/x'']"
    using h(1,3,4) cache_failure_not_stored [of ?bad 400000 400010 "''/api/x''" "''{}''" ?c 400020 ?ok 400030]
    by blast
  then have "snd (snd (fetchWithCache ?ok 400020 400030 ''/api/x'' ''{}'' ?c)) = [''/api/x'']"
    by (simp only: h(2))
  with f show ?thesis by (intro conjI)
qed

section \<open>Verification: the aggregator\<close>

lemma push_present_append: "push_present xs i merged = merged @ push_present xs i []"
  by (simp add: push_present_def)

lemma merge_loop_rounds:
  "merge_loop y s a n i merged = merged @ concat (map (round_of y s a) [i..<n])"
proof (induction y s a n i merged rule: merge_loop.induct)
  case (1 y s a n i merged)
  show ?case
  proof (cases "i < n")
    case True
    have "merge_loop y s a n i merged =
        merge_loop y s a n (i + 1) (push_present a i (push_present s i (push_present y i merged)))"
      using True by (subst merge_loop.simps) simp
    also have "\<dots> = push_present a i (push_present s i (push_present y i merged)) @
        concat (map (round_of y s a) [i + 1..<n])"
      using True by (rule "1.IH")
    also have "push_present a i (push_present s i (push_present y i merged)) = merged @ round_of y s a i"
      by (simp add: push_present_def round_of_def)
    finally show ?thesis using True by (simp add: upt_conv_Cons)
  next
    case False
    then show ?thesis by (subst merge_loop.simps) simp
  qed
qed

lemma round_robin_three:
  "round_robin [y, s, a] =
     concat (map (round_of y s a) [0..<max (length y) (max (length s) (length a))])"
proof -
  have "(\<lambda>i. concat (map (\<lambda>xs. if i < length xs then [xs ! i] else []) [y, s, a])) = round_of y s a"
    by (rule ext) (simp add: round_of_def push_present_def)
  then show ?thesis by (simp add: round_robin_def)
qed

lemma mergeResults_round_robin: "mergeResults y s a = round_robin [y, s, a]"
  by (simp add: mergeResults_def merge_loop_rounds round_robin_three)

lemma round_column:
  "concat (map (\<lambda>xs. if i < length xs then [xs ! i] else []) xss) =
     map (\<lambda>xs. xs ! i) (filter (\<lambda>xs. i < length xs) xss)"
  by (induction xss) simp_all

lemma round_robin_transpose: "round_robin xss = concat (transpose xss)"
proof -
  have "transpose xss =
      map (\<lambda>i. concat (map (\<lambda>xs. if i < length xs then [xs ! i] else []) xss))
        [0..<foldr (\<lambda>xs. max (length xs)) xss 0]"
  proof (rule nth_equalityI)
    show "length (transpose xss) =
        length (map (\<lambda>i. concat (map (\<lambda>xs. if i < length xs then [xs ! i] else []) xss))
          [0..<foldr (\<lambda>xs. max (length xs)) xss 0])"
      by (simp add: length_transpose)
  next
    fix i assume i: "i < length (transpose xss)"
    then have "i < foldr (\<lambda>xs. max (length xs)) xss 0"
      by (simp add: length_transpose)
    then show "transpose xss ! i =
        map (\<lambda>i. concat (map (\<lambda>xs. if i < length xs then [xs ! i] else []) xss))
          [0..<foldr (\<lambda>xs. max (length xs)) xss 0] ! i"
      by (simp add: nth_transpose [OF i] round_column)
  qed
  then show ?thesis by (simp add: round_robin_def)
qed

text \<open>
  Claim C6. \<open>mergeResults\<close> is the round-robin interleaving of the three lists in the order
  youtube, soundcloud, audius (which is also the concatenated transpose of the three lists).
  A provider whose request failed contributes the empty list,
  and \<open>search(query, "all")\<close> is always fulfilled, with the interleaving of the three
  contributions. For lists \<open>[a1, a2]\<close>, a failing second provider and \<open>[c1]\<close> the result is
  \<open>[a1, c1, a2]\<close>.
\<close>

theorem search_partial_failure:
  "mergeResults y s a = round_robin [y, s, a] \<and>
   round_robin [y, s, a] = concat (transpose [y, s, a]) \<and>
   settled_into [] (search_source f (Inl e)) = [] \<and>
   search ''all'' fy fs fa ry rs ra =
     Inr (round_robin [settled_into [] (search_source fy ry),
                       settled_into [] (search_source fs rs),
                       settled_into [] (search_source fa ra)]) \<and>
   search ''all'' Some Some Some (Inr [a1, a2]) (Inl e) (Inr [c1]) = Inr [a1, c1, a2]"
proof -
  have x: "search ''all'' Some Some Some (Inr [a1, a2]) (Inl e) (Inr [c1]) =
      Inr (round_robin [[a1, a2], [], [c1]])"
    by (simp add: search_def mergeResults_round_robin search_source_def settled_into_def)
  have "round_robin [[a1, a2], [], [c1]] = [a1, c1, a2]"
    by (simp add: round_robin_transpose)
  then show ?thesis
    using x round_robin_transpose [of "[y, s, a]"]
    by (simp add: search_def mergeResults_round_robin search_source_def settled_into_def)
qed

section \<open>Verification: the persistent store\<close>

subsection \<open>Playlists\<close>

lemma updatePlaylist_result:
  "updatePlaylist ident updates now st =
     (Inl (if valid_key ident then TransactionInactiveError else DataError), st)"
  by (simp add: updatePlaylist_def getPlaylist_def after_await_def store_put_def Let_def)

text \<open>On a transaction that is active the merged record is stored, and \<open>createPlaylist\<close>,
  which places its request in the task that opens the transaction, stores its record.\<close>

lemma store_put_active_merges:
  assumes "p ''id'' = Some ident" "valid_key ident" "updates ''id'' = None"
  shows "\<exists>st'. store_put Active (merged_record p updates now) st = Inr (ident, st') \<and>
           records st' = (records st)(ident \<mapsto> merged_record p updates now)"
  using assms by (simp add: store_put_def put_def merged_record_def map_add_def)

lemma createPlaylist_stores:
  "createPlaylist name description now now' st =
     (Inr (Num (keyGenerator st)),
      st\<lparr>records := (records st)(Num (keyGenerator st) \<mapsto>
             [''name'' \<mapsto> Str name, ''description'' \<mapsto> Str description, ''tracks'' \<mapsto> Arr [],
              ''created'' \<mapsto> Num now, ''modified'' \<mapsto> Num now', ''id'' \<mapsto> Num (keyGenerator st)]),
         keyGenerator := keyGenerator st + 1\<rparr>)"
  by (simp add: createPlaylist_def store_put_def put_def Let_def)

text \<open>
  Claim C2. The code does not do what the claim says. \<open>updatePlaylist\<close> places its \<open>put\<close> on
  a transaction that is no longer active, so for every valid key, stored or not, the promise
  is rejected with \<open>TransactionInactiveError\<close> and the store is left as it was; an invalid
  key is rejected with \<open>DataError\<close> by \<open>getPlaylist\<close>. For the stored playlist 1 the record
  keeps its name, where the merged record would carry the new one; for the absent key 7 the
  error is not a not-found error.
\<close>

theorem updatePlaylist_rejects:
  "updatePlaylist ident updates now st =
     (Inl (if valid_key ident then TransactionInactiveError else DataError), st) \<and>
   updatePlaylist (Num 1) [''name'' \<mapsto> Str ''Road''] 2000
     \<lparr>records = [Num 1 \<mapsto> [''id'' \<mapsto> Num 1, ''name'' \<mapsto> Str ''Mix'', ''tracks'' \<mapsto> Arr [],
                              ''modified'' \<mapsto> Num 1000]],
      keyGenerator = 2\<rparr> =
     (Inl TransactionInactiveError,
      \<lparr>records = [Num 1 \<mapsto> [''id'' \<mapsto> Num 1, ''name'' \<mapsto> Str ''Mix'', ''tracks'' \<mapsto> Arr [],
                               ''modified'' \<mapsto> Num 1000]],
       keyGenerator = 2\<rparr>) \<and>
   merged_record [''id'' \<mapsto> Num 1, ''name'' \<mapsto> Str ''Mix'', ''tracks'' \<mapsto> Arr [],
                  ''modified'' \<mapsto> Num 1000] [''name'' \<mapsto> Str ''Road''] 2000 ''name'' = Some (Str ''Road'') \<and>
   updatePlaylist (Num 7) [''name'' \<mapsto> Str ''Road''] 2000 new_store =
     (Inl TransactionInactiveError, new_store)"
  by (simp add: updatePlaylist_result merged_record_def)

subsection \<open>Search history\<close>

lemma unique_loop_latest:
  "unique_loop xs seen acc = acc @ latest_per_query (filter (\<lambda>x. query x \<notin> seen) xs)"
proof (induction xs arbitrary: seen acc)
  case Nil
  show ?case by simp
next
  case (Cons x xs)
  have f: "filter (\<lambda>y. query y \<noteq> query x \<and> query y \<notin> seen) xs =
      filter (\<lambda>y. query y \<notin> seen \<and> query y \<noteq> query x) xs"
    by (rule filter_cong) auto
  show ?case by (simp add: Cons.IH f)
qed

lemma length_latest_le: "length (latest_per_query xs) \<le> length xs"
proof (induction xs rule: latest_per_query.induct)
  case 1
  show ?case by simp
next
  case (2 e es)
  have "length (filter (\<lambda>x. query x \<noteq> query e) es) \<le> length es" by simp
  then have "length (latest_per_query (filter (\<lambda>x. query x \<noteq> query e) es)) \<le> length es"
    using 2 by (rule order_trans [rotated])
  then show ?case by simp
qed

lemma set_latest_subset: "set (latest_per_query xs) \<subseteq> set xs"
  by (induction xs rule: latest_per_query.induct) auto

lemma queries_latest: "query ` set (latest_per_query xs) = query ` set xs"
proof (induction xs rule: latest_per_query.induct)
  case 1
  show ?case by simp
next
  case (2 e es)
  have "query ` set (e # es) = insert (query e) (query ` set (filter (\<lambda>x. query x \<noteq> query e) es))"
    by auto
  then show ?case using 2 by simp
qed

lemma distinct_latest: "distinct (map query (latest_per_query xs))"
proof (induction xs rule: latest_per_query.induct)
  case 1
  show ?case by simp
next
  case (2 e es)
  have "query e \<notin> query ` set (latest_per_query (filter (\<lambda>x. query x \<noteq> query e) es))"
    by (auto simp: queries_latest)
  then show ?case using 2 by simp
qed

lemma sorted_wrt_latest: "sorted_wrt R xs \<Longrightarrow> sorted_wrt R (latest_per_query xs)"
proof (induction xs rule: latest_per_query.induct)
  case 1
  show ?case by simp
next
  case (2 e es)
  have "sorted_wrt R (filter (\<lambda>x. query x \<noteq> query e) es)"
    using "2.prems" by (simp add: sorted_wrt_filter)
  then have "sorted_wrt R (latest_per_query (filter (\<lambda>x. query x \<noteq> query e) es))"
    by (rule "2.IH")
  moreover have "\<forall>y\<in>set (latest_per_query (filter (\<lambda>x. query x \<noteq> query e) es)). R e y"
    using "2.prems" set_latest_subset [of "filter (\<lambda>x. query x \<noteq> query e) es"] by auto
  ultimately show ?case by simp
qed

lemma latest_is_first:
  "sorted_wrt (\<lambda>a b. recency b \<le> recency a) xs \<Longrightarrow> e \<in> set (latest_per_query xs) \<Longrightarrow>
     e' \<in> set xs \<Longrightarrow> query e' = query e \<Longrightarrow> recency e' \<le> recency e"
proof (induction xs rule: latest_per_query.induct)
  case 1
  then show ?case by simp
next
  case (2 x xs)
  let ?f = "filter (\<lambda>y. query y \<noteq> query x) xs"
  show ?case
  proof (cases "e = x")
    case True
    then show ?thesis using "2.prems" by auto
  next
    case False
    then have e: "e \<in> set (latest_per_query ?f)" using "2.prems" by simp
    then have "e \<in> set ?f" using set_latest_subset by blast
    then have q: "query e \<noteq> query x" by simp
    then have e': "e' \<in> set ?f" using "2.prems" by auto
    have "sorted_wrt (\<lambda>a b. recency b \<le> recency a) ?f"
      using "2.prems"(1) by (simp add: sorted_wrt_filter)
    then show ?thesis using "2.IH" e e' "2.prems"(4) by blast
  qed
qed

lemma recent_first_sorted:
  "sorted_wrt (\<lambda>a b. recency b \<le> recency a) (rev (timestamp_index st))"
proof -
  have "sorted (map recency (sort_key recency (entries st)))" by simp
  then have "sorted_wrt (\<lambda>a b. recency a \<le> recency b) (sort_key recency (entries st))"
    by (simp add: sorted_map)
  then show ?thesis
    by (simp add: timestamp_index_def sorted_wrt_rev)
qed

lemma getSearchHistory_latest:
  "0 \<le> limit \<Longrightarrow>
     getSearchHistory (Some limit) st = take (nat limit) (latest_per_query (rev (timestamp_index st)))"
  by (simp add: getSearchHistory_def js_slice_to_def unique_loop_latest)


lemma entries_index_set: "set (timestamp_index st) = set (entries st)"
  by (simp add: timestamp_index_def)

text \<open>
  Claim C8. \<open>getSearchHistory()\<close> is \<open>getSearchHistory(10)\<close>. For a limit that is not
  negative the result is the first \<open>limit\<close> entries of the most-recent-first list with only
  the first entry of each query kept: at most \<open>limit\<close> entries, no query twice, most recent
  first, each entry the most recent one stored with its query; a limit that is at least the
  number of stored entries returns every stored query. After adding \<open>a\<close>, \<open>b\<close>, \<open>a\<close>, \<open>c\<close>
  in that order (at times that do not decrease) the queries read with limit 10 are
  \<open>c\<close>, \<open>a\<close>, \<open>b\<close>.
\<close>

theorem search_history_dedup:
  "getSearchHistory None st = getSearchHistory (Some 10) st \<and>
   (0 \<le> limit \<longrightarrow>
      getSearchHistory (Some limit) st =
        take (nat limit) (latest_per_query (rev (timestamp_index st))) \<and>
      length (getSearchHistory (Some limit) st) \<le> nat limit \<and>
      distinct (map query (getSearchHistory (Some limit) st)) \<and>
      sorted_wrt (\<lambda>a b. recency b \<le> recency a) (getSearchHistory (Some limit) st) \<and>
      (\<forall>e\<in>set (getSearchHistory (Some limit) st).
         e \<in> set (entries st) \<and>
         (\<forall>e'\<in>set (entries st). query e' = query e \<longrightarrow> recency e' \<le> recency e))) \<and>
   (int (length (entries st)) \<le> limit \<longrightarrow>
      query ` set (getSearchHistory (Some limit) st) = query ` set (entries st)) \<and>
   (t1 \<le> t2 \<and> t2 \<le> t3 \<and> t3 \<le> t4 \<longrightarrow>
      map query (getSearchHistory (Some 10)
        (snd (addToSearchHistory ''c'' t4
        (snd (addToSearchHistory ''a'' t3
        (snd (addToSearchHistory ''b'' t2
        (snd (addToSearchHistory ''a'' t1 new_search_store))))))))) = [''c'', ''a'', ''b''])"
proof -
  let ?recent = "rev (timestamp_index st)"
  let ?all = "latest_per_query ?recent"
  have d: "getSearchHistory None st = getSearchHistory (Some 10) st"
    by (simp add: getSearchHistory_def)
  have a: "0 \<le> limit \<longrightarrow>
      getSearchHistory (Some limit) st = take (nat limit) ?all \<and>
      length (getSearchHistory (Some limit) st) \<le> nat limit \<and>
      distinct (map query (getSearchHistory (Some limit) st)) \<and>
      sorted_wrt (\<lambda>a b. recency b \<le> recency a) (getSearchHistory (Some limit) st) \<and>
      (\<forall>e\<in>set (getSearchHistory (Some limit) st).
         e \<in> set (entries st) \<and>
         (\<forall>e'\<in>set (entries st). query e' = query e \<longrightarrow> recency e' \<le> recency e))"
  proof
    assume l: "0 \<le> limit"
    have g: "getSearchHistory (Some limit) st = take (nat limit) ?all"
      using l by (rule getSearchHistory_latest)
    have s: "sorted_wrt (\<lambda>a b. recency b \<le> recency a) ?all"
      using recent_first_sorted by (rule sorted_wrt_latest)
    have 1: "length (take (nat limit) ?all) \<le> nat limit" by simp
    have 2: "distinct (map query (take (nat limit) ?all))"
      using distinct_latest [of ?recent] by (simp add: take_map [symmetric] distinct_take)
    have 3: "sorted_wrt (\<lambda>a b. recency b \<le> recency a) (take (nat limit) ?all)"
      using s by (rule sorted_wrt_take)
    have 4: "\<forall>e\<in>set (take (nat limit) ?all).
         e \<in> set (entries st) \<and>
         (\<forall>e'\<in>set (entries st). query e' = query e \<longrightarrow> recency e' \<le> recency e)"
    proof
      fix e assume "e \<in> set (take (nat limit) ?all)"
      then have e: "e \<in> set ?all" by (rule in_set_takeD)
      then have "e \<in> set ?recent" using set_latest_subset by blast
      then have m: "e \<in> set (entries st)" by (simp add: entries_index_set)
      have "\<forall>e'\<in>set (entries st). query e' = query e \<longrightarrow> recency e' \<le> recency e"
      proof (intro ballI impI)
        fix e' assume "e' \<in> set (entries st)" and q: "query e' = query e"
        then have "e' \<in> set ?recent" by (simp add: entries_index_set)
        then show "recency e' \<le> recency e"
          using latest_is_first [OF recent_first_sorted e] q by blast
      qed
      then show "e \<in> set (entries st) \<and>
         (\<forall>e'\<in>set (entries st). query e' = query e \<longrightarrow> recency e' \<le> recency e)"
        using m by simp
    qed
    show "getSearchHistory (Some limit) st = take (nat limit) ?all \<and>
      length (getSearchHistory (Some limit) st) \<le> nat limit \<and>
      distinct (map query (getSearchHistory (Some limit) st)) \<and>
      sorted_wrt (\<lambda>a b. recency b \<le> recency a) (getSearchHistory (Some limit) st) \<and>
      (\<forall>e\<in>set (getSearchHistory (Some limit) st).
         e \<in> set (entries st) \<and>
         (\<forall>e'\<in>set (entries st). query e' = query e \<longrightarrow> recency e' \<le> recency e))"
      unfolding g using 1 2 3 4 by (intro conjI) simp_all
  qed
  have b: "int (length (entries st)) \<le> limit \<longrightarrow>
      query ` set (getSearchHistory (Some limit) st) = query ` set (entries st)"
  proof
    assume l: "int (length (entries st)) \<le> limit"
    then have "0 \<le> limit" by simp
    then have g: "getSearchHistory (Some limit) st = take (nat limit) ?all"
      by (rule getSearchHistory_latest)
    have "length ?all \<le> length (entries st)"
      using length_latest_le [of ?recent] by (simp add: timestamp_index_def)
    then have "take (nat limit) ?all = ?all" using l by simp
    then show "query ` set (getSearchHistory (Some limit) st) = query ` set (entries st)"
      by (simp add: g queries_latest entries_index_set)
  qed
  have c: "t1 \<le> t2 \<and> t2 \<le> t3 \<and> t3 \<le> t4 \<longrightarrow>
      map query (getSearchHistory (Some 10)
        (snd (addToSearchHistory ''c'' t4
        (snd (addToSearchHistory ''a'' t3
        (snd (addToSearchHistory ''b'' t2
        (snd (addToSearchHistory ''a'' t1 new_search_store))))))))) = [''c'', ''a'', ''b'']"
  proof
    assume t: "t1 \<le> t2 \<and> t2 \<le> t3 \<and> t3 \<le> t4"
    let ?es = "[\<lparr>entry_id = 1, query = ''a'', entry_timestamp = t1\<rparr>,
                \<lparr>entry_id = 2, query = ''b'', entry_timestamp = t2\<rparr>,
                \<lparr>entry_id = 3, query = ''a'', entry_timestamp = t3\<rparr>,
                \<lparr>entry_id = 4, query = ''c'', entry_timestamp = t4\<rparr>]"
    let ?st = "snd (addToSearchHistory ''c'' t4
        (snd (addToSearchHistory ''a'' t3
        (snd (addToSearchHistory ''b'' t2
        (snd (addToSearchHistory ''a'' t1 new_search_store)))))))"
    have e: "entries ?st = ?es"
      by (simp add: addToSearchHistory_def new_search_store_def)
    have "sorted (map recency ?es)"
      using t by (simp add: recency_def less_eq_prod_def)
    then have i: "timestamp_index ?st = ?es"
      unfolding timestamp_index_def e by (rule sort_key_id_if_sorted)
    show "map query (getSearchHistory (Some 10) ?st) = [''c'', ''a'', ''b'']"
      by (simp add: getSearchHistory_def i js_slice_to_def)
  qed
  show ?thesis using d a b c by (intro conjI)
qed


text \<open>
  Four entries stored with timestamps out of insertion order, read with limit 2 and with
  limit 4; and the a, b, a, c example at times 100 to 400.
\<close>

theorem search_history_dedup_witness:
  "getSearchHistory (Some 2)
     \<lparr>entries = [\<lparr>entry_id = 1, query = ''a'', entry_timestamp = 30\<rparr>,
                 \<lparr>entry_id = 2, query = ''b'', entry_timestamp = 10\<rparr>,
                 \<lparr>entry_id = 3, query = ''a'', entry_timestamp = 20\<rparr>,
                 \<lparr>entry_id = 4, query = ''c'', entry_timestamp = 20\<rparr>], nextId = 5\<rparr> =
     [\<lparr>entry_id = 1, query = ''a'', entry_timestamp = 30\<rparr>,
      \<lparr>entry_id = 4, query = ''c'', entry_timestamp = 20\<rparr>] \<and>
   query ` set (getSearchHistory (Some 4)
     \<lparr>entries = [\<lparr>entry_id = 1, query = ''a'', entry_timestamp = 30\<rparr>,
                 \<lparr>entry_id = 2, query = ''b'', entry_timestamp = 10\<rparr>,
                 \<lparr>entry_id = 3, query = ''a'', entry_timestamp = 20\<rparr>,
                 \<lparr>entry_id = 4, query = ''c'', entry_timestamp = 20\<rparr>], nextId = 5\<rparr>) =
     {''a'', ''b'', ''c''} \<and>
   map query (getSearchHistory (Some 10)
        (snd (addToSearchHistory ''c'' 400
        (snd (addToSearchHistory ''a'' 300
        (snd (addToSearchHistory ''b'' 200
        (snd (addToSearchHistory ''a'' 100 new_search_store))))))))) = [''c'', ''a'', ''b'']"
proof -
  let ?st = "\<lparr>entries = [\<lparr>entry_id = 1, query = ''a'', entry_timestamp = 30\<rparr>,
                 \<lparr>entry_id = 2, query = ''b'', entry_timestamp = 10\<rparr>,
                 \<lparr>entry_id = 3, query = ''a'', entry_timestamp = 20\<rparr>,
                 \<lparr>entry_id = 4, query = ''c'', entry_timestamp = 20\<rparr>], nextId = 5\<rparr>"
  have i: "timestamp_index ?st =
      [\<lparr>entry_id = 2, query = ''b'', entry_timestamp = 10\<rparr>,
       \<lparr>entry_id = 3, query = ''a'', entry_timestamp = 20\<rparr>,
       \<lparr>entry_id = 4, query = ''c'', entry_timestamp = 20\<rparr>,
       \<lparr>entry_id = 1, query = ''a'', entry_timestamp = 30\<rparr>]"
    by (simp add: timestamp_index_def recency_def less_eq_prod_def)
  have h: "(0::int) \<le> 2" "(100::int) \<le> 200 \<and> (200::int) \<le> 300 \<and> (300::int) \<le> 400"
    "int (length (entries ?st)) \<le> 4"
    by simp_all
  have a: "getSearchHistory (Some 2) ?st = take (nat 2) (latest_per_query (rev (timestamp_index ?st)))"
    using h(1) search_history_dedup [of ?st 2 100 200 300 400] by blast
  have b: "map query (getSearchHistory (Some 10)
        (snd (addToSearchHistory ''c'' 400
        (snd (addToSearchHistory ''a'' 300
        (snd (addToSearchHistory ''b'' 200
        (snd (addToSearchHistory ''a'' 100 new_search_store))))))))) = [''c'', ''a'', ''b'']"
    using h(2) search_history_dedup [of ?st 2 100 200 300 400] by blast
  have "query ` set (getSearchHistory (Some 4) ?st) = query ` set (entries ?st)"
    using h(3) search_history_dedup [of ?st 4 100 200 300 400] by blast
  then have c: "query ` set (getSearchHistory (Some 4) ?st) = {''a'', ''b'', ''c''}"
    by auto
  have "take (nat 2) (latest_per_query (rev (timestamp_index ?st))) =
     [\<lparr>entry_id = 1, query = ''a'', entry_timestamp = 30\<rparr>,
      \<lparr>entry_id = 4, query = ''c'', entry_timestamp = 20\<rparr>]"
    unfolding i by (simp add: numeral_2_eq_2)
  then show ?thesis using a b c by simp
qed

subsection \<open>Downloads and offline tracks\<close>

text \<open>
  Claim C4. The code does not do what the claim says on two of its failure paths. When the
  commit fails, both stores are left as they were but the promise of \<open>saveOfflineTrack\<close> and
  of \<open>deleteDownload\<close> never settles (no handler for \<open>abort\<close>). When the second \<open>put\<close> of
  \<open>saveOfflineTrack\<close> throws, the promise is rejected and the first write is committed: an
  offline blob without a download record. When the first \<open>put\<close> throws or a request fails,
  the promise is rejected and both stores are left as they were; without a failure both
  records are written (or both deleted) and the promise resolves with \<open>true\<close>.
\<close>

theorem offline_pair_failure_paths:
  "saveOfflineTrack CommitFails now now' t blob db = (Pending, db) \<and>
   deleteDownload CommitFails k db = (Pending, db) \<and>
   saveOfflineTrack (CallThrows DownloadsStore) now now' t blob db =
     (Rejected,
      db\<lparr>offlineTracks := (offlineTracks db)(trackId_of t \<mapsto>
            \<lparr>ot_track = t, ot_id = trackId_of t, ot_blob = blob, ot_timestamp = now\<rparr>)\<rparr>) \<and>
   saveOfflineTrack (CallThrows OfflineTracksStore) now now' t blob db = (Rejected, db) \<and>
   saveOfflineTrack (RequestFails x) now now' t blob db = (Rejected, db) \<and>
   deleteDownload (RequestFails x) k db = (Rejected, db) \<and>
   saveOfflineTrack NoFault now now' t blob db =
     (Resolved True,
      db\<lparr>offlineTracks := (offlineTracks db)(trackId_of t \<mapsto>
            \<lparr>ot_track = t, ot_id = trackId_of t, ot_blob = blob, ot_timestamp = now\<rparr>),
         downloads := (downloads db)(trackId_of t \<mapsto>
            \<lparr>dl_id = trackId_of t, dl_track = t, dl_size = length blob, dl_timestamp = now'\<rparr>)\<rparr>) \<and>
   deleteDownload NoFault k db =
     (Resolved True,
      db\<lparr>offlineTracks := (offlineTracks db)(k := None), downloads := (downloads db)(k := None)\<rparr>) \<and>
   saveOfflineTrack CommitFails 10 11 \<lparr>track_id = ''42'', source = ''audius''\<rparr> ''abc''
       \<lparr>offlineTracks = Map.empty, downloads = Map.empty\<rparr> =
     (Pending, \<lparr>offlineTracks = Map.empty, downloads = Map.empty\<rparr>) \<and>
   saveOfflineTrack (CallThrows DownloadsStore) 10 11 \<lparr>track_id = ''42'', source = ''audius''\<rparr> ''abc''
       \<lparr>offlineTracks = Map.empty, downloads = Map.empty\<rparr> =
     (Rejected,
      \<lparr>offlineTracks = [''audius_42'' \<mapsto> \<lparr>ot_track = \<lparr>track_id = ''42'', source = ''audius''\<rparr>,
          ot_id = ''audius_42'', ot_blob = ''abc'', ot_timestamp = 10\<rparr>],
       downloads = Map.empty\<rparr>) \<and>
   \<not> paired (snd (saveOfflineTrack (CallThrows DownloadsStore) 10 11
       \<lparr>track_id = ''42'', source = ''audius''\<rparr> ''abc''
       \<lparr>offlineTracks = Map.empty, downloads = Map.empty\<rparr>))"
proof -
  have a: "saveOfflineTrack CommitFails now now' t blob db = (Pending, db)"
    "deleteDownload CommitFails k db = (Pending, db)"
    by (simp_all add: saveOfflineTrack_def deleteDownload_def transaction_def Let_def)
  have b: "saveOfflineTrack (CallThrows DownloadsStore) now now' t blob db =
     (Rejected,
      db\<lparr>offlineTracks := (offlineTracks db)(trackId_of t \<mapsto>
            \<lparr>ot_track = t, ot_id = trackId_of t, ot_blob = blob, ot_timestamp = now\<rparr>)\<rparr>)"
    "saveOfflineTrack (CallThrows OfflineTracksStore) now now' t blob db = (Rejected, db)"
    by (simp_all add: saveOfflineTrack_def transaction_def Let_def)
  have c: "saveOfflineTrack (RequestFails x) now now' t blob db = (Rejected, db)"
    "deleteDownload (RequestFails x) k db = (Rejected, db)"
    by (cases x; simp add: saveOfflineTrack_def deleteDownload_def transaction_def Let_def)+
  have d: "saveOfflineTrack NoFault now now' t blob db =
     (Resolved True,
      db\<lparr>offlineTracks := (offlineTracks db)(trackId_of t \<mapsto>
            \<lparr>ot_track = t, ot_id = trackId_of t, ot_blob = blob, ot_timestamp = now\<rparr>),
         downloads := (downloads db)(trackId_of t \<mapsto>
            \<lparr>dl_id = trackId_of t, dl_track = t, dl_size = length blob, dl_timestamp = now'\<rparr>)\<rparr>)"
    "deleteDownload NoFault k db =
     (Resolved True,
      db\<lparr>offlineTracks := (offlineTracks db)(k := None), downloads := (downloads db)(k := None)\<rparr>)"
    by (simp_all add: saveOfflineTrack_def deleteDownload_def transaction_def Let_def)
  let ?t = "\<lparr>track_id = ''42'', source = ''audius''\<rparr>"
  let ?db = "\<lparr>offlineTracks = Map.empty, downloads = Map.empty\<rparr> :: unit offline_db"
  have e: "saveOfflineTrack CommitFails 10 11 ?t ''abc'' ?db = (Pending, ?db)"
    by (simp add: saveOfflineTrack_def transaction_def Let_def)
  have f: "saveOfflineTrack (CallThrows DownloadsStore) 10 11 ?t ''abc'' ?db =
     (Rejected,
      \<lparr>offlineTracks = [''audius_42'' \<mapsto> \<lparr>ot_track = ?t,
          ot_id = ''audius_42'', ot_blob = ''abc'', ot_timestamp = 10\<rparr>],
       downloads = Map.empty\<rparr>)"
    by (simp add: saveOfflineTrack_def transaction_def trackId_of_def Let_def)
  have g: "\<not> paired (snd (saveOfflineTrack (CallThrows DownloadsStore) 10 11 ?t ''abc'' ?db))"
    unfolding f by (simp add: paired_def)
  show ?thesis using a b c d e f g by (intro conjI)
qed

end
